theory Spec2Isabelle
  imports Main "HOL-Library.Word"
begin

section \<open>Common types\<close>

text \<open>
  \<^verbatim>\<open>size_t\<close> and \<^verbatim>\<open>ptrdiff_t\<close> are taken at their LP64 width: 64 bits, unsigned and
  two's complement. Addition on \<open>size_t\<close> wraps around.
\<close>

type_synonym size_t = "64 word"

text \<open>
  \<^verbatim>\<open>caf::error\<close>: a default-constructed error is empty and converts to \<^verbatim>\<open>false\<close>
  (\<open>no_error\<close>); \<^verbatim>\<open>sec::broken_promise\<close> is the code the promise test compares with;
  every other code is a \<open>user_error\<close>.
\<close>

datatype error = no_error | broken_promise | user_error nat

text \<open>
  Undefined behaviour of the C++ source is a value of the model: dereferencing a null
  \<^verbatim>\<open>intrusive_ptr\<close>, and leaving a function that returns \<^verbatim>\<open>size_t\<close> without a
  \<^verbatim>\<open>return\<close> statement.
\<close>

datatype fault = null_dereference | missing_return

section \<open>Subscriber state, coordinator and observers\<close>

text \<open>
  \<^verbatim>\<open>mcast_sub_state<T>\<close> is an alias of \<^verbatim>\<open>ucast_sub_state<T>\<close>, whose header
  \<^verbatim>\<open>caf/flow/op/ucast.hpp\<close> is missing. The fields \<open>out\<close>, \<open>demand\<close>, \<open>buf\<close> and \<open>running\<close> are
  the ones \<^verbatim>\<open>mcast.hpp\<close> reads and writes; \<open>closed\<close> and \<open>err\<close> are the terminal
  status of the specification's data model. An observer is identified by a number.
\<close>

record 'a mcast_sub_state =
  out :: nat
  demand :: size_t
  buf :: "'a list"
  running :: bool
  closed :: bool
  err :: error

text \<open>
  The closures handed to \<^verbatim>\<open>coordinator::delay_fn\<close>: each captures the address of one
  subscriber state and calls \<^verbatim>\<open>do_run\<close> or \<^verbatim>\<open>do_dispose\<close> on it later.
\<close>

datatype action = do_run nat | do_dispose nat

text \<open>
  What is returned from \<^verbatim>\<open>subscribe\<close>: a null \<^verbatim>\<open>disposable{}\<close>, a handle to an
  \<^verbatim>\<open>mcast_sub\<close> (the address of its state, \<open>None\<close> once the pointer is null), or the
  handle of the \<^verbatim>\<open>op::empty\<close> source.
\<close>

record mcast_sub =
  sub_state :: "nat option"

text \<open>
  A trailing underscore is not a legal name here, so the members \<^verbatim>\<open>state_\<close>,
  \<^verbatim>\<open>closed_\<close>, \<^verbatim>\<open>err_\<close>, \<^verbatim>\<open>states_\<close> and \<^verbatim>\<open>out_\<close> are the fields \<open>sub_state\<close>,
  \<open>mcast_closed\<close>, \<open>mcast_err\<close>, \<open>mcast_states\<close> and \<open>bridge_out\<close>. The member
  \<^verbatim>\<open>ctx_\<close> is the coordinator, whose queue is part of the shared state below.
\<close>

datatype disposable = disposable_null | disposable_sub mcast_sub | disposable_empty

text \<open>The calls an observer receives.\<close>

datatype 'a signal = on_subscribe nat | on_next 'a | on_complete | on_error error

text \<open>
  The part of the program state the operator and its subscriptions share: the store of
  subscriber states (an \<^verbatim>\<open>intrusive_ptr\<close> is an index into \<open>heap\<close>; states are never
  freed while a pointer to them exists, so the store only grows), the coordinator's
  queue of delayed actions in the order of the \<^verbatim>\<open>delay_fn\<close> calls, and the calls made on
  observers so far.
\<close>

record 'a world =
  heap :: "'a mcast_sub_state list"
  actions :: "action list"
  signals :: "(nat \<times> 'a signal) list"

definition modify :: "nat \<Rightarrow> ('a mcast_sub_state \<Rightarrow> 'a mcast_sub_state) \<Rightarrow> 'a world \<Rightarrow> 'a world" where
  "modify p f w = w\<lparr>heap := (heap w)[p := f (heap w ! p)]\<rparr>"

definition delay_fn :: "action \<Rightarrow> 'a world \<Rightarrow> 'a world" where
  "delay_fn a w = w\<lparr>actions := actions w @ [a]\<rparr>"

definition signal :: "nat \<Rightarrow> 'a signal \<Rightarrow> 'a world \<Rightarrow> 'a world" where
  "signal obs s w = w\<lparr>signals := signals w @ [(obs, s)]\<rparr>"

text \<open>
  Modelled from the spec: \<^verbatim>\<open>ucast_sub_state::push\<close> (header \<^verbatim>\<open>caf/flow/op/ucast.hpp\<close>)
  is missing. The spec: a push appends the item to the subscriber's buffer and does not
  itself deliver, delivery happens in the subscription's scheduled pass; and "when the
  buffer empties and demand remains, running is cleared; a later push will need to
  re-trigger a pass". So the push on the state at address \<open>p\<close> appends the item, and
  when that state is not running and has demand, it marks the state running and
  schedules one pass for it on the coordinator. No observer is called.
\<close>

definition state_push :: "'a \<Rightarrow> nat \<Rightarrow> 'a world \<Rightarrow> 'a world" where
  "state_push item p w =
     (let w1 = modify p (\<lambda>st. st\<lparr>buf := buf st @ [item]\<rparr>) w
      in if \<not> running (heap w1 ! p) \<and> demand (heap w1 ! p) \<noteq> 0
         then delay_fn (do_run p) (modify p (\<lambda>st. st\<lparr>running := True\<rparr>) w1)
         else w1)"

text \<open>
  Modelled from the spec: \<^verbatim>\<open>ucast_sub_state::close\<close> (same header) is missing. The spec:
  it signals completion to the state, whose terminal status is then completed normally.
\<close>

definition state_close :: "'a mcast_sub_state \<Rightarrow> 'a mcast_sub_state" where
  "state_close s = s\<lparr>closed := True\<rparr>"

text \<open>
  Modelled from the spec: \<^verbatim>\<open>ucast_sub_state::abort\<close> (same header) is missing. The spec:
  as close, with a terminal failure in place of normal completion.
\<close>

definition state_abort :: "error \<Rightarrow> 'a mcast_sub_state \<Rightarrow> 'a mcast_sub_state" where
  "state_abort reason s = s\<lparr>closed := True, err := reason\<rparr>"

text \<open>
  Modelled from the spec: \<^verbatim>\<open>op::empty<T>::subscribe\<close> (header \<^verbatim>\<open>caf/flow/op/empty.hpp\<close>)
  is missing. The spec: an immediately-empty, already-completed source, with no error;
  the observer is signalled completion and gets the handle of that source.
\<close>

definition empty_subscribe :: "nat \<Rightarrow> 'a world \<Rightarrow> 'a world \<times> disposable" where
  "empty_subscribe obs w = (signal obs on_complete w, disposable_empty)"

section \<open>The subscription \<^verbatim>\<open>mcast_sub\<close>\<close>

definition disposed :: "mcast_sub \<Rightarrow> bool" where
  "disposed s = (sub_state s = None)"

text \<open>
  \<^verbatim>\<open>dispose\<close> moves \<open>sub_state\<close> into the closure: the member is null when the call
  returns, and \<^verbatim>\<open>do_dispose\<close> runs later, on the coordinator.
\<close>

definition dispose :: "mcast_sub \<Rightarrow> 'a world \<Rightarrow> mcast_sub \<times> 'a world" where
  "dispose s w =
     (case sub_state s of
        Some p \<Rightarrow> (s\<lparr>sub_state := None\<rparr>, delay_fn (do_dispose p) w)
      | None \<Rightarrow> (s, w))"

text \<open>\<^verbatim>\<open>request\<close> dereferences \<open>sub_state\<close> with no test.\<close>

definition request :: "size_t \<Rightarrow> mcast_sub \<Rightarrow> 'a world \<Rightarrow> fault + 'a world" where
  "request n s w =
     (case sub_state s of
        None \<Rightarrow> Inl null_dereference
      | Some p \<Rightarrow>
          (let w1 = modify p (\<lambda>st. st\<lparr>demand := demand st + n\<rparr>) w
           in if \<not> running (heap w1 ! p)
              then Inr (delay_fn (do_run p) (modify p (\<lambda>st. st\<lparr>running := True\<rparr>) w1))
              else Inr w1))"

section \<open>The operator \<^verbatim>\<open>mcast\<close>\<close>

record mcast =
  mcast_closed :: bool
  mcast_err :: error
  mcast_states :: "nat list"

text \<open>
  The range-based \<^verbatim>\<open>for\<close> loops of \<^verbatim>\<open>close\<close> and \<^verbatim>\<open>abort\<close> visit \<open>mcast_states\<close>
  from the front; each step changes one state.
\<close>

fun for_states :: "('a mcast_sub_state \<Rightarrow> 'a mcast_sub_state) \<Rightarrow> nat list \<Rightarrow> 'a world \<Rightarrow> 'a world" where
  "for_states f [] w = w"
| "for_states f (p # ps) w = for_states f ps (modify p f w)"

text \<open>
  The loop of \<^verbatim>\<open>push_all\<close>, from the front of \<open>mcast_states\<close> as well: a push acts on
  the state and on the coordinator, so each step is a function of the whole world.
\<close>

fun push_states :: "'a \<Rightarrow> nat list \<Rightarrow> 'a world \<Rightarrow> 'a world" where
  "push_states item [] w = w"
| "push_states item (p # ps) w = push_states item ps (state_push item p w)"

definition push_all :: "'a \<Rightarrow> mcast \<Rightarrow> 'a world \<Rightarrow> 'a world" where
  "push_all item m w = push_states item (mcast_states m) w"

definition close :: "mcast \<Rightarrow> 'a world \<Rightarrow> mcast \<times> 'a world" where
  "close m w =
     (if \<not> mcast_closed m
      then (m\<lparr>mcast_closed := True, mcast_states := []\<rparr>, for_states state_close (mcast_states m) w)
      else (m, w))"

text \<open>\<^verbatim>\<open>abort\<close> hands \<open>reason\<close> to the states; it does not assign \<open>mcast_err\<close>.\<close>

definition abort :: "error \<Rightarrow> mcast \<Rightarrow> 'a world \<Rightarrow> mcast \<times> 'a world" where
  "abort reason m w =
     (if \<not> mcast_closed m
      then (m\<lparr>mcast_closed := True, mcast_states := []\<rparr>, for_states (state_abort reason) (mcast_states m) w)
      else (m, w))"

text \<open>
  \<^verbatim>\<open>std::max_element\<close> and \<^verbatim>\<open>std::min_element\<close> on a non-empty range, as the standard
  defines them: the first argument is the best element so far, and a later element
  replaces it only when it is strictly better under \<open>cmp\<close>.
\<close>

fun max_element :: "('b \<Rightarrow> 'b \<Rightarrow> bool) \<Rightarrow> 'b \<Rightarrow> 'b list \<Rightarrow> 'b" where
  "max_element cmp largest [] = largest"
| "max_element cmp largest (x # xs) =
     max_element cmp (if cmp largest x then x else largest) xs"

fun min_element :: "('b \<Rightarrow> 'b \<Rightarrow> bool) \<Rightarrow> 'b \<Rightarrow> 'b list \<Rightarrow> 'b" where
  "min_element cmp smallest [] = smallest"
| "min_element cmp smallest (x # xs) =
     min_element cmp (if cmp x smallest then x else smallest) xs"

definition max_demand :: "mcast \<Rightarrow> 'a world \<Rightarrow> fault + size_t" where
  "max_demand m w =
     (case mcast_states m of
        [] \<Rightarrow> Inr 0
      | p # ps \<Rightarrow>
          (let pred = (\<lambda>x y. demand (heap w ! x) < demand (heap w ! y));
               ptr = max_element pred p ps
           in Inr (demand (heap w ! ptr))))"

text \<open>
  In \<^verbatim>\<open>min_demand\<close> and \<^verbatim>\<open>min_buffered\<close> the last statement of the \<^verbatim>\<open>else\<close> branch is
  the expression \<^verbatim>\<open>ptr->demand;\<close> (\<^verbatim>\<open>ptr->buf.size();\<close>), without \<^verbatim>\<open>return\<close>: the value
  is computed and control reaches the end of the function.
\<close>

definition min_demand :: "mcast \<Rightarrow> 'a world \<Rightarrow> fault + size_t" where
  "min_demand m w =
     (case mcast_states m of
        [] \<Rightarrow> Inr 0
      | p # ps \<Rightarrow>
          (let pred = (\<lambda>x y. demand (heap w ! x) < demand (heap w ! y));
               ptr = min_element pred p ps;
               discarded = demand (heap w ! ptr)
           in Inl missing_return))"

definition max_buffered :: "mcast \<Rightarrow> 'a world \<Rightarrow> fault + nat" where
  "max_buffered m w =
     (case mcast_states m of
        [] \<Rightarrow> Inr 0
      | p # ps \<Rightarrow>
          (let pred = (\<lambda>x y. length (buf (heap w ! x)) < length (buf (heap w ! y)));
               ptr = max_element pred p ps
           in Inr (length (buf (heap w ! ptr)))))"

definition min_buffered :: "mcast \<Rightarrow> 'a world \<Rightarrow> fault + nat" where
  "min_buffered m w =
     (case mcast_states m of
        [] \<Rightarrow> Inr 0
      | p # ps \<Rightarrow>
          (let pred = (\<lambda>x y. length (buf (heap w ! x)) < length (buf (heap w ! y)));
               ptr = min_element pred p ps;
               discarded = length (buf (heap w ! ptr))
           in Inl missing_return))"

definition has_observers :: "mcast \<Rightarrow> bool" where
  "has_observers m = (mcast_states m \<noteq> [])"

definition observer_count :: "mcast \<Rightarrow> nat" where
  "observer_count m = length (mcast_states m)"

text \<open>
  \<^verbatim>\<open>add_state\<close> allocates a fresh state for the observer (no demand, empty buffer, not
  running, not closed) and appends its address to \<open>mcast_states\<close>. The two callbacks it
  installs only capture the operator and the state.
\<close>

definition add_state :: "nat \<Rightarrow> mcast \<Rightarrow> 'a world \<Rightarrow> nat \<times> mcast \<times> 'a world" where
  "add_state obs m w =
     (let state = length (heap w);
          fresh = \<lparr>out = obs, demand = 0, buf = [], running = False, closed = False, err = no_error\<rparr>
      in (state, m\<lparr>mcast_states := mcast_states m @ [state]\<rparr>, w\<lparr>heap := heap w @ [fresh]\<rparr>))"

definition subscribe :: "nat \<Rightarrow> mcast \<Rightarrow> 'a world \<Rightarrow> mcast \<times> 'a world \<times> disposable" where
  "subscribe obs m w =
     (if \<not> mcast_closed m
      then (case add_state obs m w of
              (state, m1, w1) \<Rightarrow>
                (m1, signal obs (on_subscribe state) w1, disposable_sub \<lparr>sub_state = Some state\<rparr>))
      else if mcast_err m = no_error
      then (case empty_subscribe obs w of (w1, d) \<Rightarrow> (m, w1, d))
      else (m, signal obs (on_error (mcast_err m)) w, disposable_null))"

text \<open>
  The disposal callback of a state: \<^verbatim>\<open>std::find\<close> and \<^verbatim>\<open>erase\<close> remove the first
  occurrence of the state from \<open>mcast_states\<close>; \<^verbatim>\<open>on_dispose\<close> is a no-op in \<^verbatim>\<open>mcast\<close>.
\<close>

definition mcast_do_dispose :: "nat \<Rightarrow> mcast \<Rightarrow> mcast" where
  "mcast_do_dispose state m =
     (if state \<in> set (mcast_states m) then m\<lparr>mcast_states := remove1 state (mcast_states m)\<rparr> else m)"

text \<open>
  What holds of an operator and the store in every state the operations below reach from
  a new operator: \<open>add_state\<close> appends a fresh address, so the subscriber list has no
  address twice, and every address in it refers to a state of the store.
\<close>

definition well_formed :: "mcast \<Rightarrow> 'a world \<Rightarrow> bool" where
  "well_formed m w =
     (distinct (mcast_states m) \<and> list_all (\<lambda>p. p < length (heap w)) (mcast_states m))"

section \<open>The binary flow bridge\<close>

text \<open>
  The bridge's base class, the producer adapter \<^verbatim>\<open>out_\<close>, the trait and the lower layer
  \<^verbatim>\<open>down_\<close> are declared in headers that are missing, so
  \<^verbatim>\<open>consume\<close> takes what it calls as parameters: \<open>convert\<close> is the trait's decoding
  (\<open>None\<close> when it returns \<^verbatim>\<open>false\<close>), \<open>push\<close> is the adapter's \<^verbatim>\<open>push\<close>, giving the
  new sink and the number it returns. \<open>bridge_out\<close> is \<open>None\<close> when \<^verbatim>\<open>!out_\<close> holds, and
  \<open>suspend_calls\<close> counts the calls of \<^verbatim>\<open>suspend_reading\<close> made on the lower layer.
\<close>

record 's flow_bridge =
  bridge_out :: "'s option"
  suspend_calls :: nat

text \<open>The result is the \<^verbatim>\<open>ptrdiff_t\<close> that the cast of \<^verbatim>\<open>buf.size()\<close> yields; the span
  \<^verbatim>\<open>buf\<close> is the argument \<open>bytes\<close>.\<close>

definition consume ::
  "(8 word list \<Rightarrow> 'i option) \<Rightarrow> ('i \<Rightarrow> 's \<Rightarrow> 's \<times> size_t) \<Rightarrow> 8 word list \<Rightarrow>
   's flow_bridge \<Rightarrow> int \<times> 's flow_bridge" where
  "consume convert push bytes b =
     (case bridge_out b of
        None \<Rightarrow> (- 1, b)
      | Some sink \<Rightarrow>
          (case convert bytes of
             None \<Rightarrow> (- 1, b)
           | Some val \<Rightarrow>
               (case push val sink of
                  (sink1, capacity) \<Rightarrow>
                    (let b1 = b\<lparr>bridge_out := Some sink1\<rparr>;
                         b2 = (if capacity = 0
                               then b1\<lparr>suspend_calls := Suc (suspend_calls b1)\<rparr>
                               else b1)
                     in (sint (word_of_nat (length bytes) :: 64 word), b2)))))"

section \<open>The promise cell\<close>

text \<open>
  The headers \<^verbatim>\<open>caf/async/promise.hpp\<close> and \<^verbatim>\<open>caf/async/future.hpp\<close> are missing;
  their test \<^verbatim>\<open>test/async/promise.cpp\<close> is there. Every definition of this section
  follows the specification. A consumer (a continuation bound with
  \<^verbatim>\<open>bind_to(...).then(...)\<close>, or an observer subscribed through \<^verbatim>\<open>observe_on(...)\<close>) is
  identified by a number.
\<close>

text \<open>
  Modelled from the spec: the content of a cell (the cell class is missing). The spec: a
  cell holds one of unset, value and error.
\<close>

datatype 'a outcome = unset | has_value 'a | has_error error

text \<open>
  Modelled from the spec: the shared cell (missing). The spec: a single shared cell with
  reference-counted producer handles. \<open>promises\<close> counts the live producer handles,
  \<open>waiting\<close> lists the consumers attached before the cell resolved, \<open>observed\<close> the
  outcomes delivered to consumers, in order.
\<close>

record 'a cell =
  content :: "'a outcome"
  promises :: nat
  waiting :: "nat list"
  observed :: "(nat \<times> 'a outcome) list"

text \<open>
  Modelled from the spec: \<^verbatim>\<open>future::pending\<close> (missing). The spec: true iff the cell has
  not yet resolved.
\<close>

definition pending :: "'a cell \<Rightarrow> bool" where
  "pending c = (content c = unset)"

text \<open>
  Modelled from the spec: the transition of the cell (missing). The spec: the value or
  error transition happens at most once, a later one is rejected without effect; every
  attached consumer is delivered the outcome exactly once.
\<close>

definition resolve :: "'a outcome \<Rightarrow> 'a cell \<Rightarrow> 'a cell" where
  "resolve r c =
     (if content c = unset
      then c\<lparr>content := r, waiting := [], observed := observed c @ map (\<lambda>k. (k, r)) (waiting c)\<rparr>
      else c)"

text \<open>Modelled from the spec: \<^verbatim>\<open>promise::set_value\<close> (missing) transitions the cell.\<close>

definition set_value :: "'a \<Rightarrow> 'a cell \<Rightarrow> 'a cell" where
  "set_value v c = resolve (has_value v) c"

text \<open>Modelled from the spec: \<^verbatim>\<open>promise::set_error\<close> (missing) transitions the cell.\<close>

definition set_error :: "error \<Rightarrow> 'a cell \<Rightarrow> 'a cell" where
  "set_error e c = resolve (has_error e) c"

text \<open>
  Modelled from the spec: the copy constructor and copy assignment of a promise
  (missing). The spec: copying increments the count of live producer handles; moving
  does not change it.
\<close>

definition promise_copy :: "'a cell \<Rightarrow> 'a cell" where
  "promise_copy c = c\<lparr>promises := Suc (promises c)\<rparr>"

text \<open>
  Modelled from the spec: the destructor of a promise (missing). The spec: when the last
  producer handle of a still-unset cell is destroyed, the cell resolves to the
  broken-promise failure. Only a live handle can be destroyed, so the count is at least
  1 before.
\<close>

definition promise_destroy :: "'a cell \<Rightarrow> 'a cell" where
  "promise_destroy c =
     (let c1 = c\<lparr>promises := promises c - 1\<rparr>
      in if promises c = 1 then resolve (has_error broken_promise) c1 else c1)"

text \<open>
  Modelled from the spec: attaching a consumer to the future (missing). The spec:
  attachment is possible before or after resolution; late attachment delivers the
  already-resolved outcome.
\<close>

definition attach :: "nat \<Rightarrow> 'a cell \<Rightarrow> 'a cell" where
  "attach k c =
     (if content c = unset
      then c\<lparr>waiting := waiting c @ [k]\<rparr>
      else c\<lparr>observed := observed c @ [(k, content c)]\<rparr>)"

text \<open>
  Modelled from the spec: destroying \<open>n\<close> promise handles over one cell, one after the
  other (the scopes of the test end this way).
\<close>

fun destroy_handles :: "nat \<Rightarrow> 'a cell \<Rightarrow> 'a cell" where
  "destroy_handles 0 c = c"
| "destroy_handles (Suc n) c = destroy_handles n (promise_destroy c)"

text \<open>
  Modelled from the spec: what a consumer has observed, the outcomes delivered to it.
\<close>

definition observed_by :: "nat \<Rightarrow> 'a cell \<Rightarrow> 'a outcome list" where
  "observed_by k c = map snd (filter (\<lambda>e. fst e = k) (observed c))"

section \<open>Example configurations\<close>

text \<open>
  An operator right after construction, one with two subscribers whose states are
  at the addresses 0 and 1, and one whose three subscribers joined in the order of the
  states 2, 0 and 1, the first two of them idle with demand; a decoder that yields the first byte of a message and fails
  on an empty one, and a sink with a capacity that reports what is left of it; a cell
  with three live promise handles and two consumers waiting.
\<close>

definition fresh_mcast :: mcast where
  "fresh_mcast = \<lparr>mcast_closed = False, mcast_err = no_error, mcast_states = []\<rparr>"

definition fresh_world :: "nat world" where
  "fresh_world = \<lparr>heap = [], actions = [], signals = []\<rparr>"

definition two_subscribers :: mcast where
  "two_subscribers = \<lparr>mcast_closed = False, mcast_err = no_error, mcast_states = [0, 1]\<rparr>"

definition two_states :: "nat world" where
  "two_states =
     \<lparr>heap = [\<lparr>out = 10, demand = 3, buf = [5], running = False, closed = False, err = no_error\<rparr>,
              \<lparr>out = 11, demand = 1, buf = [], running = True, closed = False, err = no_error\<rparr>],
      actions = [], signals = []\<rparr>"

definition three_subscribers :: mcast where
  "three_subscribers = \<lparr>mcast_closed = False, mcast_err = no_error, mcast_states = [2, 0, 1]\<rparr>"

definition three_states :: "nat world" where
  "three_states =
     \<lparr>heap = [\<lparr>out = 10, demand = 3, buf = [], running = False, closed = False, err = no_error\<rparr>,
              \<lparr>out = 11, demand = 1, buf = [5], running = True, closed = False, err = no_error\<rparr>,
              \<lparr>out = 12, demand = 2, buf = [], running = False, closed = False, err = no_error\<rparr>],
      actions = [], signals = []\<rparr>"

definition first_byte :: "8 word list \<Rightarrow> 8 word option" where
  "first_byte bytes = (case bytes of [] \<Rightarrow> None | b # bs \<Rightarrow> Some b)"

definition bounded_push :: "8 word \<Rightarrow> nat \<times> 8 word list \<Rightarrow> (nat \<times> 8 word list) \<times> size_t" where
  "bounded_push v sink = ((fst sink - 1, snd sink @ [v]), word_of_nat (fst sink - 1))"

definition three_promises :: "nat cell" where
  "three_promises = \<lparr>content = unset, promises = 3, waiting = [4, 5], observed = []\<rparr>"

section \<open>Loops over the subscriber states\<close>

lemma length_heap_modify: "length (heap (modify p f w)) = length (heap w)"
  by (simp add: modify_def)

lemma actions_modify: "actions (modify p f w) = actions w"
  by (simp add: modify_def)

lemma signals_modify: "signals (modify p f w) = signals w"
  by (simp add: modify_def)

lemma heap_modify_same: "p < length (heap w) \<Longrightarrow> heap (modify p f w) ! p = f (heap w ! p)"
  by (simp add: modify_def)

lemma heap_modify_other: "q \<noteq> p \<Longrightarrow> heap (modify p f w) ! q = heap w ! q"
  by (simp add: modify_def)

lemma length_heap_for_states: "length (heap (for_states f ps w)) = length (heap w)"
  by (induction ps arbitrary: w) (simp_all add: length_heap_modify)

lemma actions_for_states: "actions (for_states f ps w) = actions w"
  by (induction ps arbitrary: w) (simp_all add: actions_modify)

lemma signals_for_states: "signals (for_states f ps w) = signals w"
  by (induction ps arbitrary: w) (simp_all add: signals_modify)

lemma heap_for_states_other: "q \<notin> set ps \<Longrightarrow> heap (for_states f ps w) ! q = heap w ! q"
  by (induction ps arbitrary: w) (auto simp: heap_modify_other)

lemma heap_for_states_member:
  "distinct ps \<Longrightarrow> q \<in> set ps \<Longrightarrow> q < length (heap w) \<Longrightarrow>
   heap (for_states f ps w) ! q = f (heap w ! q)"
proof (induction ps arbitrary: w)
  case Nil
  then show ?case by simp
next
  case (Cons p ps)
  show ?case
  proof (cases "q = p")
    case True
    with Cons.prems have "q \<notin> set ps" by simp
    then have "heap (for_states f ps (modify p f w)) ! q = heap (modify p f w) ! q"
      by (rule heap_for_states_other)
    with True Cons.prems show ?thesis by (simp add: heap_modify_same)
  next
    case False
    with Cons.prems have "q \<in> set ps" "distinct ps" "q < length (heap (modify p f w))"
      by (simp_all add: length_heap_modify)
    then have "heap (for_states f ps (modify p f w)) ! q = f (heap (modify p f w) ! q)"
      by (intro Cons.IH)
    with False show ?thesis by (simp add: heap_modify_other)
  qed
qed

lemma for_states_foldl: "for_states f ps w = foldl (\<lambda>w p. modify p f w) w ps"
  by (induction ps arbitrary: w) simp_all

text \<open>One push, and the loop of pushes.\<close>

lemma length_heap_state_push: "length (heap (state_push item p w)) = length (heap w)"
  by (simp add: state_push_def modify_def delay_fn_def Let_def)

lemma signals_state_push: "signals (state_push item p w) = signals w"
  by (simp add: state_push_def modify_def delay_fn_def Let_def)

lemma heap_state_push_other: "q \<noteq> p \<Longrightarrow> heap (state_push item p w) ! q = heap w ! q"
  by (simp add: state_push_def modify_def delay_fn_def Let_def)

lemma heap_state_push_same:
  "p < length (heap w) \<Longrightarrow>
   heap (state_push item p w) ! p =
     (heap w ! p)\<lparr>buf := buf (heap w ! p) @ [item],
                  running := running (heap w ! p) \<or> demand (heap w ! p) \<noteq> 0\<rparr>"
  by (simp add: state_push_def modify_def delay_fn_def Let_def)

lemma actions_state_push:
  "p < length (heap w) \<Longrightarrow>
   actions (state_push item p w) =
     actions w @ (if \<not> running (heap w ! p) \<and> demand (heap w ! p) \<noteq> 0 then [do_run p] else [])"
  by (simp add: state_push_def modify_def delay_fn_def Let_def)

lemma length_heap_push_states: "length (heap (push_states item ps w)) = length (heap w)"
  by (induction ps arbitrary: w) (simp_all add: length_heap_state_push)

lemma signals_push_states: "signals (push_states item ps w) = signals w"
  by (induction ps arbitrary: w) (simp_all add: signals_state_push)

lemma heap_push_states_other: "q \<notin> set ps \<Longrightarrow> heap (push_states item ps w) ! q = heap w ! q"
  by (induction ps arbitrary: w) (auto simp: heap_state_push_other)

lemma heap_push_states_member:
  "distinct ps \<Longrightarrow> q \<in> set ps \<Longrightarrow> q < length (heap w) \<Longrightarrow>
   heap (push_states item ps w) ! q =
     (heap w ! q)\<lparr>buf := buf (heap w ! q) @ [item],
                  running := running (heap w ! q) \<or> demand (heap w ! q) \<noteq> 0\<rparr>"
proof (induction ps arbitrary: w)
  case Nil
  then show ?case by simp
next
  case (Cons p ps)
  show ?case
  proof (cases "q = p")
    case True
    with Cons.prems have "q \<notin> set ps" by simp
    then have "heap (push_states item ps (state_push item p w)) ! q = heap (state_push item p w) ! q"
      by (rule heap_push_states_other)
    with True Cons.prems show ?thesis by (simp add: heap_state_push_same)
  next
    case False
    with Cons.prems have "distinct ps" "q \<in> set ps" "q < length (heap (state_push item p w))"
      by (simp_all add: length_heap_state_push)
    then have "heap (push_states item ps (state_push item p w)) ! q =
        (heap (state_push item p w) ! q)\<lparr>buf := buf (heap (state_push item p w) ! q) @ [item],
          running := running (heap (state_push item p w) ! q)
                     \<or> demand (heap (state_push item p w) ! q) \<noteq> 0\<rparr>"
      by (rule Cons.IH)
    with False show ?thesis by (simp add: heap_state_push_other)
  qed
qed

text \<open>
  The passes are scheduled in the order of the list: the queue grows by one \<open>do_run\<close>
  for each listed state that was idle with demand, front to back.
\<close>

lemma actions_push_states:
  "distinct ps \<Longrightarrow> \<forall>p\<in>set ps. p < length (heap w) \<Longrightarrow>
   actions (push_states item ps w) =
     actions w @ map do_run (filter (\<lambda>p. \<not> running (heap w ! p) \<and> demand (heap w ! p) \<noteq> 0) ps)"
proof (induction ps arbitrary: w)
  case Nil
  then show ?case by simp
next
  case (Cons p ps)
  let ?w1 = "state_push item p w"
  from Cons.prems have p: "p < length (heap w)" and notin: "p \<notin> set ps" and dist: "distinct ps"
    by simp_all
  from Cons.prems have valid: "\<forall>q\<in>set ps. q < length (heap ?w1)"
    by (simp add: length_heap_state_push)
  have same: "heap ?w1 ! q = heap w ! q" if "q \<in> set ps" for q
  proof -
    from that notin have "q \<noteq> p" by auto
    then show ?thesis by (rule heap_state_push_other)
  qed
  have "actions (push_states item ps ?w1) =
      actions ?w1 @ map do_run (filter (\<lambda>q. \<not> running (heap ?w1 ! q) \<and> demand (heap ?w1 ! q) \<noteq> 0) ps)"
    using dist valid by (rule Cons.IH)
  also have "filter (\<lambda>q. \<not> running (heap ?w1 ! q) \<and> demand (heap ?w1 ! q) \<noteq> 0) ps =
      filter (\<lambda>q. \<not> running (heap w ! q) \<and> demand (heap w ! q) \<noteq> 0) ps"
    by (rule filter_cong) (simp_all add: same)
  finally show ?case
    using p by (simp add: actions_state_push)
qed

text \<open>
  An open operator appends the state of a new subscriber at the end of its list, and a
  disposal removes one state and keeps the others in their order: the list is in the
  order in which the subscribers joined.
\<close>

lemma subscribe_appends:
  "\<not> mcast_closed m \<Longrightarrow>
   mcast_states (fst (subscribe obs m w)) = mcast_states m @ [length (heap w)]
   \<and> out (heap (fst (snd (subscribe obs m w))) ! length (heap w)) = obs"
  by (simp add: subscribe_def add_state_def signal_def Let_def)

lemma do_dispose_keeps_order:
  "mcast_states (mcast_do_dispose p m) = remove1 p (mcast_states m)"
  by (simp add: mcast_do_dispose_def remove1_idem)

text \<open>The operations keep the operator and the store well formed.\<close>

lemma well_formed_fresh: "well_formed \<lparr>mcast_closed = False, mcast_err = no_error, mcast_states = []\<rparr> w"
  by (simp add: well_formed_def)

lemma well_formed_subscribe:
  assumes "well_formed m w"
  shows "well_formed (fst (subscribe obs m w)) (fst (snd (subscribe obs m w)))"
proof (cases "mcast_closed m")
  case True
  with assms show ?thesis
    by (simp add: subscribe_def empty_subscribe_def signal_def well_formed_def)
next
  case False
  from assms have "length (heap w) \<notin> set (mcast_states m)"
    by (auto simp: well_formed_def list_all_iff)
  with assms False show ?thesis
    by (auto simp: subscribe_def add_state_def signal_def well_formed_def list_all_iff Let_def)
qed

lemma well_formed_push_all: "well_formed m w \<Longrightarrow> well_formed m (push_all item m w)"
  by (simp add: well_formed_def push_all_def length_heap_push_states)

lemma well_formed_close: "well_formed m w \<Longrightarrow> well_formed (fst (close m w)) (snd (close m w))"
  by (simp add: well_formed_def close_def)

lemma well_formed_abort: "well_formed m w \<Longrightarrow> well_formed (fst (abort e m w)) (snd (abort e m w))"
  by (simp add: well_formed_def abort_def)

lemma well_formed_do_dispose: "well_formed m w \<Longrightarrow> well_formed (mcast_do_dispose p m) w"
  by (auto simp: well_formed_def mcast_do_dispose_def list_all_iff dest: notin_set_remove1)

lemma well_formed_request:
  "well_formed m w \<Longrightarrow> request n s w = Inr w1 \<Longrightarrow> well_formed m w1"
  by (auto simp: well_formed_def request_def modify_def delay_fn_def Let_def
      split: option.splits if_splits)

section \<open>Pushing items\<close>

text \<open>
  C4. On a well-formed operator, \<open>push_all\<close> appends the item to the buffer of each
  state of the subscriber list, leaving demand, observer and terminal status of the
  state as they were, and it leaves every other state alone. It visits the states in
  the order of the list, which is the order in which the subscribers joined (a new
  subscriber is appended at the end): the passes it schedules, one for each listed state
  that was idle with demand, are queued in that order. It calls no observer. With no
  subscriber it changes nothing, and an observer that subscribes to the open operator
  afterwards gets a fresh state whose buffer is empty.
\<close>

theorem push_all_appends:
  assumes "well_formed m w"
  shows "(\<forall>p\<in>set (mcast_states m).
            heap (push_all item m w) ! p =
              (heap w ! p)\<lparr>buf := buf (heap w ! p) @ [item],
                           running := running (heap w ! p) \<or> demand (heap w ! p) \<noteq> 0\<rparr>)
    \<and> (\<forall>q. q \<notin> set (mcast_states m) \<longrightarrow> heap (push_all item m w) ! q = heap w ! q)
    \<and> length (heap (push_all item m w)) = length (heap w)
    \<and> signals (push_all item m w) = signals w
    \<and> actions (push_all item m w) =
          actions w @ map do_run (filter (\<lambda>p. \<not> running (heap w ! p) \<and> demand (heap w ! p) \<noteq> 0)
                                    (mcast_states m))
    \<and> (mcast_states m = [] \<longrightarrow> push_all item m w = w)
    \<and> (\<not> mcast_closed m \<longrightarrow>
         (case subscribe obs m (push_all item m w) of
            (m1, w1, d) \<Rightarrow> mcast_states m1 = mcast_states m @ [length (heap w)]
               \<and> d = disposable_sub \<lparr>sub_state = Some (length (heap w))\<rparr>
               \<and> out (heap w1 ! length (heap w)) = obs
               \<and> buf (heap w1 ! length (heap w)) = []))"
proof -
  from assms have dist: "distinct (mcast_states m)"
    and valid: "\<forall>p\<in>set (mcast_states m). p < length (heap w)"
    by (simp_all add: well_formed_def list_all_iff)
  have a: "\<forall>p\<in>set (mcast_states m).
            heap (push_all item m w) ! p =
              (heap w ! p)\<lparr>buf := buf (heap w ! p) @ [item],
                           running := running (heap w ! p) \<or> demand (heap w ! p) \<noteq> 0\<rparr>"
    using dist valid by (simp add: push_all_def heap_push_states_member)
  have b: "\<forall>q. q \<notin> set (mcast_states m) \<longrightarrow> heap (push_all item m w) ! q = heap w ! q"
    by (simp add: push_all_def heap_push_states_other)
  have c: "length (heap (push_all item m w)) = length (heap w)"
    by (simp add: push_all_def length_heap_push_states)
  have e: "signals (push_all item m w) = signals w"
    by (simp add: push_all_def signals_push_states)
  have f: "actions (push_all item m w) =
          actions w @ map do_run (filter (\<lambda>p. \<not> running (heap w ! p) \<and> demand (heap w ! p) \<noteq> 0)
                                    (mcast_states m))"
    using dist valid unfolding push_all_def by (rule actions_push_states)
  have g: "mcast_states m = [] \<longrightarrow> push_all item m w = w"
    by (simp add: push_all_def)
  have h: "\<not> mcast_closed m \<longrightarrow>
         (case subscribe obs m (push_all item m w) of
            (m1, w1, d) \<Rightarrow> mcast_states m1 = mcast_states m @ [length (heap w)]
               \<and> d = disposable_sub \<lparr>sub_state = Some (length (heap w))\<rparr>
               \<and> out (heap w1 ! length (heap w)) = obs
               \<and> buf (heap w1 ! length (heap w)) = [])"
  proof -
    have "(heap (push_all item m w) @ [x]) ! length (heap w) = x" for x
      using c by (metis nth_append_length)
    then show ?thesis
      using c by (simp add: subscribe_def add_state_def signal_def Let_def)
  qed
  from a b c e f g h show ?thesis by blast
qed

theorem push_all_appends_witness:
  "well_formed three_subscribers three_states
   \<and> buf (heap (push_all 7 three_subscribers three_states) ! 0) = [7]
   \<and> buf (heap (push_all 7 three_subscribers three_states) ! 1) = [5, 7]
   \<and> buf (heap (push_all 7 three_subscribers three_states) ! 2) = [7]
   \<and> actions (push_all 7 three_subscribers three_states) = [do_run 2, do_run 0]
   \<and> signals (push_all 7 three_subscribers three_states) = []
   \<and> push_all 7 fresh_mcast three_states = three_states"
proof -
  have wf: "well_formed three_subscribers three_states"
    by (simp add: well_formed_def three_subscribers_def three_states_def)
  have wf0: "well_formed fresh_mcast three_states"
    by (simp add: well_formed_def fresh_mcast_def)
  show ?thesis
    using wf push_all_appends [OF wf, of 7 0] push_all_appends [OF wf0, of 7 0]
    by (simp add: three_subscribers_def three_states_def fresh_mcast_def push_all_def
        state_push_def modify_def delay_fn_def)
qed

section \<open>Closing and aborting\<close>

text \<open>
  C8. The first \<open>close\<close> of a well-formed operator marks it closed, closes each state
  of its subscriber list once, leaves the other states alone and empties the list:
  there are no observers left.
\<close>

theorem close_first_call:
  assumes "\<not> mcast_closed m" and "well_formed m w"
  shows "case close m w of
           (m1, w1) \<Rightarrow> mcast_closed m1
             \<and> (\<forall>p\<in>set (mcast_states m). heap w1 ! p = state_close (heap w ! p) \<and> closed (heap w1 ! p))
             \<and> (\<forall>q. q \<notin> set (mcast_states m) \<longrightarrow> heap w1 ! q = heap w ! q)
             \<and> mcast_states m1 = []
             \<and> \<not> has_observers m1
             \<and> observer_count m1 = 0"
  using assms
  by (simp add: close_def has_observers_def observer_count_def state_close_def
      heap_for_states_member heap_for_states_other well_formed_def list_all_iff)

theorem close_first_call_witness:
  "\<not> mcast_closed two_subscribers
   \<and> well_formed two_subscribers two_states
   \<and> mcast_closed (fst (close two_subscribers two_states))
   \<and> closed (heap (snd (close two_subscribers two_states)) ! 0)
   \<and> closed (heap (snd (close two_subscribers two_states)) ! 1)
   \<and> \<not> has_observers (fst (close two_subscribers two_states))
   \<and> observer_count (fst (close two_subscribers two_states)) = 0"
proof -
  have o: "\<not> mcast_closed two_subscribers"
    by (simp add: two_subscribers_def)
  have wf: "well_formed two_subscribers two_states"
    by (simp add: well_formed_def two_subscribers_def two_states_def)
  show ?thesis
    using o wf close_first_call [OF o wf]
    by (simp add: two_subscribers_def two_states_def close_def modify_def state_close_def
        observer_count_def has_observers_def)
qed

text \<open>After the first \<open>close\<close> or \<open>abort\<close>, both are no-ops.\<close>

lemma close_idempotent:
  "close (fst (close m w)) (snd (close m w)) = close m w"
  by (simp add: close_def)

lemma abort_idempotent:
  "abort e2 (fst (abort e1 m w)) (snd (abort e1 m w)) = abort e1 m w"
  by (simp add: abort_def)

lemma close_after_abort:
  "close (fst (abort e m w)) (snd (abort e m w)) = abort e m w"
  by (simp add: abort_def close_def)

lemma abort_after_close:
  "abort e (fst (close m w)) (snd (close m w)) = close m w"
  by (simp add: abort_def close_def)

text \<open>
  An observer that subscribes after \<open>close\<close> is completed. \<open>abort\<close> leaves
  \<open>mcast_err\<close> as it was, so after the abort of an operator without a stored error a
  new observer is completed too, whatever the reason was.
\<close>

lemma subscribe_after_close:
  "mcast_err m = no_error \<Longrightarrow>
   subscribe obs (fst (close m w)) (snd (close m w)) =
     (fst (close m w), signal obs on_complete (snd (close m w)), disposable_empty)"
  by (simp add: close_def subscribe_def empty_subscribe_def)

lemma abort_keeps_err: "mcast_err (fst (abort e m w)) = mcast_err m"
  by (simp add: abort_def)

lemma subscribe_after_abort:
  "\<not> mcast_closed m \<Longrightarrow> mcast_err m = no_error \<Longrightarrow>
   subscribe obs (fst (abort e m w)) (snd (abort e m w)) =
     (fst (abort e m w), signal obs on_complete (snd (abort e m w)), disposable_empty)"
  by (simp add: abort_def subscribe_def empty_subscribe_def)

text \<open>
  C1. An observer that subscribes after \<open>abort\<close> should have the reason signalled with
  \<open>on_error\<close> and get a null handle. On a new operator aborted with the error
  \<open>user_error 1\<close>, observer 7 is signalled \<open>on_complete\<close> instead and gets the handle
  of the empty source: \<open>mcast_err\<close> is still \<open>no_error\<close>.
\<close>

theorem subscribe_after_abort_completes:
  "(case abort (user_error 1) fresh_mcast fresh_world of (m1, w1) \<Rightarrow> subscribe 7 m1 w1)
   = (\<lparr>mcast_closed = True, mcast_err = no_error, mcast_states = []\<rparr>,
      \<lparr>heap = [], actions = [], signals = [(7, on_complete)]\<rparr>,
      disposable_empty)"
  by (simp add: abort_def subscribe_def empty_subscribe_def signal_def fresh_mcast_def
      fresh_world_def)

text \<open>
  C3. After \<open>abort\<close> a later \<open>close\<close> changes nothing, and a subscriber should then
  observe the error of the abort. With two subscribers, after \<open>abort (user_error 1)\<close>
  and \<open>close\<close>, the only signal to the new observer 7 is \<open>on_complete\<close>.
\<close>

theorem subscribe_after_abort_then_close:
  "(case abort (user_error 1) two_subscribers two_states of
      (m1, w1) \<Rightarrow> (case close m1 w1 of (m2, w2) \<Rightarrow> signals (fst (snd (subscribe 7 m2 w2)))))
   = [(7, on_complete)]"
  by (simp add: abort_def close_def subscribe_def empty_subscribe_def signal_def
      two_subscribers_def two_states_def modify_def state_abort_def)

section \<open>Diagnostics\<close>

text \<open>
  The maximum queries return the largest demand and the largest buffer size of the
  subscriber list, and 0 when it is empty.
\<close>

lemma max_element_fold:
  "f (max_element (\<lambda>x y. f x < f y) a xs) = fold max (map f xs) (f a)"
  for f :: "'b \<Rightarrow> 'c::linorder"
proof (induction xs arbitrary: a)
  case Nil
  then show ?case by simp
next
  case (Cons x xs)
  have "f (if f a < f x then x else a) = max (f x) (f a)"
    by (auto simp: max_def)
  with Cons.IH [of "if f a < f x then x else a"] show ?case
    by simp
qed

lemma max_element_Max:
  "f (max_element (\<lambda>x y. f x < f y) a xs) = Max (f ` set (a # xs))"
  for f :: "'b \<Rightarrow> 'c::linorder"
proof -
  have "Max (set (f a # map f xs)) = fold max (map f xs) (f a)"
    by (rule Max.set_eq_fold)
  then show ?thesis
    by (simp add: max_element_fold)
qed

lemma max_demand_returns_max:
  "max_demand m w =
     Inr (if mcast_states m = [] then 0
          else Max ((\<lambda>p. demand (heap w ! p)) ` set (mcast_states m)))"
proof (cases "mcast_states m")
  case Nil
  then show ?thesis by (simp add: max_demand_def)
next
  case (Cons p ps)
  then show ?thesis
    using max_element_Max [of "\<lambda>p. demand (heap w ! p)" p ps]
    by (simp add: max_demand_def)
qed

lemma max_buffered_returns_max:
  "max_buffered m w =
     Inr (if mcast_states m = [] then 0
          else Max ((\<lambda>p. length (buf (heap w ! p))) ` set (mcast_states m)))"
proof (cases "mcast_states m")
  case Nil
  then show ?thesis by (simp add: max_buffered_def)
next
  case (Cons p ps)
  then show ?thesis
    using max_element_Max [of "\<lambda>p. length (buf (heap w ! p))" p ps]
    by (simp add: max_buffered_def)
qed

text \<open>
  The minimum queries return 0 on an empty subscriber list and nothing on any other.
\<close>

lemma min_queries_empty:
  "mcast_states m = [] \<Longrightarrow> min_demand m w = Inr 0 \<and> min_buffered m w = Inr 0"
  by (simp add: min_demand_def min_buffered_def)

lemma min_queries_nonempty:
  "mcast_states m \<noteq> [] \<Longrightarrow>
   min_demand m w = Inl missing_return \<and> min_buffered m w = Inl missing_return"
  by (simp add: min_demand_def min_buffered_def split: list.splits)

text \<open>
  C2. With two subscribers of demand 3 and 1 and of 1 and 0 buffered items, the minimum
  queries should return 1 and 0. Both reach the end of the function without a value.
\<close>

theorem min_queries_return_nothing:
  "min_demand two_subscribers two_states = Inl missing_return
   \<and> min_buffered two_subscribers two_states = Inl missing_return"
  by (simp add: min_demand_def min_buffered_def two_subscribers_def)

section \<open>Subscriptions\<close>

text \<open>
  C5. On a live subscription whose state is at address \<open>p\<close>, \<open>request n\<close> succeeds and
  adds \<open>n\<close> to the demand of that state (in \<open>size_t\<close> arithmetic, which is the sum of
  the numbers unless it passes \<open>2 ^ 64\<close>). If the state was not running, exactly one
  \<open>do_run\<close> for it is appended to the coordinator's queue and the state is running now;
  if it was running, the queue is unchanged. Buffer, other states and observers are
  untouched. This holds of every \<open>n\<close>, also of 0: \<open>request 0\<close> leaves the demand as it
  was, and it leaves the whole world as it was exactly when the state was running;
  on a state that was not running it schedules a pass like any other request.
\<close>

theorem request_adds_demand:
  assumes "sub_state s = Some p" and "p < length (heap w)"
  shows "case request n s w of
           Inl f \<Rightarrow> False
         | Inr w1 \<Rightarrow>
             demand (heap w1 ! p) = demand (heap w ! p) + n
           \<and> (unat (demand (heap w ! p)) + unat n < 2 ^ 64 \<longrightarrow>
                unat (demand (heap w1 ! p)) = unat (demand (heap w ! p)) + unat n)
           \<and> (n = 0 \<longrightarrow> demand (heap w1 ! p) = demand (heap w ! p))
           \<and> (n = 0 \<longrightarrow> (w1 = w) = running (heap w ! p))
           \<and> running (heap w1 ! p)
           \<and> actions w1 = (if running (heap w ! p) then actions w else actions w @ [do_run p])
           \<and> buf (heap w1 ! p) = buf (heap w ! p)
           \<and> (\<forall>q. q \<noteq> p \<longrightarrow> heap w1 ! q = heap w ! q)
           \<and> signals w1 = signals w"
proof -
  have noop: "modify p (\<lambda>st. st) w = w"
    by (simp add: modify_def)
  have changed: "delay_fn (do_run p) w2 \<noteq> w" if "actions w2 = actions w" for w2 :: "'a world"
  proof
    assume "delay_fn (do_run p) w2 = w"
    then have "actions (delay_fn (do_run p) w2) = actions w" by simp
    with that show False by (simp add: delay_fn_def)
  qed
  have zero: "n = 0 \<longrightarrow> (case request n s w of Inl f \<Rightarrow> False | Inr w1 \<Rightarrow> (w1 = w) = running (heap w ! p))"
    using assms by (auto simp: request_def noop Let_def changed actions_modify)
  have rest: "case request n s w of
           Inl f \<Rightarrow> False
         | Inr w1 \<Rightarrow>
             demand (heap w1 ! p) = demand (heap w ! p) + n
           \<and> (unat (demand (heap w ! p)) + unat n < 2 ^ 64 \<longrightarrow>
                unat (demand (heap w1 ! p)) = unat (demand (heap w ! p)) + unat n)
           \<and> (n = 0 \<longrightarrow> demand (heap w1 ! p) = demand (heap w ! p))
           \<and> running (heap w1 ! p)
           \<and> actions w1 = (if running (heap w ! p) then actions w else actions w @ [do_run p])
           \<and> buf (heap w1 ! p) = buf (heap w ! p)
           \<and> (\<forall>q. q \<noteq> p \<longrightarrow> heap w1 ! q = heap w ! q)
           \<and> signals w1 = signals w"
    using assms
    by (auto simp: request_def modify_def delay_fn_def Let_def unat_word_ariths)
  from zero rest show ?thesis
    by (cases "request n s w") auto
qed

theorem request_adds_demand_witness:
  "sub_state \<lparr>sub_state = Some 0\<rparr> = Some 0
   \<and> 0 < length (heap two_states)
   \<and> (\<exists>w1. request 4 \<lparr>sub_state = Some 0\<rparr> two_states = Inr w1
         \<and> demand (heap w1 ! 0) = 7 \<and> actions w1 = [do_run 0])
   \<and> request 0 \<lparr>sub_state = Some 1\<rparr> two_states = Inr two_states"
proof -
  have s: "sub_state \<lparr>sub_state = Some 0\<rparr> = Some 0"
    by simp
  have v: "0 < length (heap two_states)"
    by (simp add: two_states_def)
  have s1: "sub_state \<lparr>sub_state = Some 1\<rparr> = Some 1"
    by simp
  have v1: "1 < length (heap two_states)"
    by (simp add: two_states_def)
  show ?thesis
    using s v request_adds_demand [OF s v, of 4] request_adds_demand [OF s1 v1, of 0]
    by (simp add: two_states_def request_def modify_def delay_fn_def)
qed

text \<open>
  C5, counterexample: \<open>request 0\<close> is not a no-op in general. On the subscription of
  state 0 of the two-subscriber example, which is not running, \<open>request 0\<close> marks the
  state running and queues a pass: the world is not what it was.
\<close>

theorem request_zero_schedules:
  "request 0 \<lparr>sub_state = Some 0\<rparr> two_states
     = Inr \<lparr>heap = [\<lparr>out = 10, demand = 3, buf = [5], running = True, closed = False, err = no_error\<rparr>,
                     \<lparr>out = 11, demand = 1, buf = [], running = True, closed = False, err = no_error\<rparr>],
             actions = [do_run 0], signals = []\<rparr>
   \<and> request 0 \<lparr>sub_state = Some 0\<rparr> two_states \<noteq> Inr two_states"
  by (simp add: request_def modify_def delay_fn_def two_states_def)

text \<open>
  C10. After \<open>dispose\<close> the subscription reports \<open>disposed\<close> at once; the store is
  unchanged, the release of a live state is only queued on the coordinator as
  \<open>do_dispose\<close>; and a \<open>request\<close> on the disposed subscription, in any state of the
  world, dereferences the null handle. A \<open>request\<close> returns normally exactly on a
  subscription that is not disposed.
\<close>

theorem dispose_then_request:
  "(case dispose s w of
      (s1, w1) \<Rightarrow>
         disposed s1
       \<and> heap w1 = heap w
       \<and> signals w1 = signals w
       \<and> actions w1 = (case sub_state s of Some p \<Rightarrow> actions w @ [do_dispose p] | None \<Rightarrow> actions w)
       \<and> request n s1 w2 = Inl null_dereference)
   \<and> (\<exists>w1. request n s w = Inr w1) = (\<not> disposed s)
   \<and> (request n s w = Inl null_dereference) = disposed s"
  by (auto simp: dispose_def disposed_def request_def delay_fn_def Let_def split: option.splits)

section \<open>The flow bridge consumes a message\<close>

lemma sint_size: "n < 2 ^ 63 \<Longrightarrow> sint (word_of_nat n :: 64 word) = int n"
proof -
  assume n: "n < 2 ^ 63"
  then have "int n < 2 ^ 63" by (simp add: of_nat_less_numeral_power_cancel_iff)
  moreover have "- (2 ^ 63) \<le> int n" by (rule order_trans [of _ 0]) simp_all
  ultimately have "signed_take_bit 63 (int n) = int n"
    by (rule signed_take_bit_int_eq_self [rotated])
  moreover have "sint (word_of_nat n :: 64 word) = signed_take_bit 63 (int n)"
    by (simp add: signed_of_nat)
  ultimately show ?thesis by simp
qed

text \<open>
  C6. For a span shorter than \<open>2 ^ 63\<close> bytes (every span is: its size is the size of an
  object in memory): without a sink, or when the trait fails to decode, \<open>consume\<close>
  returns a negative number and leaves the bridge as it was; otherwise it pushes the
  decoded value into the sink and returns the size of the span.
\<close>

theorem consume_result:
  assumes "length bytes < 2 ^ 63"
  shows "(case bridge_out b of
            None \<Rightarrow> fst (consume convert push bytes b) < 0 \<and> snd (consume convert push bytes b) = b
          | Some sink \<Rightarrow>
              (case convert bytes of
                 None \<Rightarrow> fst (consume convert push bytes b) < 0
                          \<and> snd (consume convert push bytes b) = b
               | Some v \<Rightarrow> fst (consume convert push bytes b) = int (length bytes)
                          \<and> bridge_out (snd (consume convert push bytes b)) = Some (fst (push v sink))))"
  using assms
  by (simp add: consume_def sint_size Let_def split: option.splits prod.splits)

theorem consume_result_witness:
  "length [1, 2, 3 :: 8 word] < 2 ^ 63
   \<and> consume first_byte bounded_push [1, 2, 3] \<lparr>bridge_out = Some (2, []), suspend_calls = 0\<rparr>
       = (3, \<lparr>bridge_out = Some (1, [1]), suspend_calls = 0\<rparr>)
   \<and> fst (consume first_byte bounded_push [] \<lparr>bridge_out = Some (2, []), suspend_calls = 0\<rparr>) = - 1
   \<and> fst (consume first_byte bounded_push [1, 2, 3] \<lparr>bridge_out = None, suspend_calls = 0\<rparr>) = - 1"
proof -
  have l: "length [1, 2, 3 :: 8 word] < 2 ^ 63"
    by simp
  have e: "length ([] :: 8 word list) < 2 ^ 63"
    by simp
  show ?thesis
    using l
      consume_result [OF l, where b = "\<lparr>bridge_out = Some (2, []), suspend_calls = 0\<rparr>"
        and convert = first_byte and push = bounded_push]
      consume_result [OF e, where b = "\<lparr>bridge_out = Some (2, []), suspend_calls = 0\<rparr>"
        and convert = first_byte and push = bounded_push]
      consume_result [OF l, where b = "\<lparr>bridge_out = None, suspend_calls = 0\<rparr>"
        and convert = first_byte and push = bounded_push]
    by (simp add: consume_def first_byte_def bounded_push_def)
qed

text \<open>
  C7. When \<open>consume\<close> succeeds, the lower layer has been told to suspend reading once
  more than before if the push reported 0, and no more often than before otherwise.
\<close>

theorem consume_backpressure:
  assumes "bridge_out b = Some sink" and "convert bytes = Some v"
  shows "suspend_calls (snd (consume convert push bytes b)) =
           (if snd (push v sink) = 0 then Suc (suspend_calls b) else suspend_calls b)"
  using assms
  by (simp add: consume_def Let_def split: prod.splits)

theorem consume_backpressure_witness:
  "bridge_out \<lparr>bridge_out = Some (1, []), suspend_calls = 0\<rparr> = Some (1, [])
   \<and> first_byte [1, 2, 3] = Some 1
   \<and> suspend_calls (snd (consume first_byte bounded_push [1, 2, 3]
        \<lparr>bridge_out = Some (1, []), suspend_calls = 0\<rparr>)) = 1
   \<and> suspend_calls (snd (consume first_byte bounded_push [1, 2, 3]
        \<lparr>bridge_out = Some (2, []), suspend_calls = 0\<rparr>)) = 0"
proof -
  have o1: "bridge_out \<lparr>bridge_out = Some (1::nat, [] :: 8 word list), suspend_calls = 0\<rparr> = Some (1, [])"
    by simp
  have o2: "bridge_out \<lparr>bridge_out = Some (2::nat, [] :: 8 word list), suspend_calls = 0\<rparr> = Some (2, [])"
    by simp
  have c: "first_byte [1, 2, 3] = Some 1"
    by (simp add: first_byte_def)
  show ?thesis
    using o1 c
      consume_backpressure [where convert = first_byte and push = bounded_push, OF o1 c]
      consume_backpressure [where convert = first_byte and push = bounded_push, OF o2 c]
    by (simp add: bounded_push_def)
qed

section \<open>Broken promises\<close>

lemma destroy_last_handles:
  "content c = unset \<Longrightarrow> promises c = Suc n \<Longrightarrow>
   destroy_handles (Suc n) c = resolve (has_error broken_promise) (c\<lparr>promises := 0\<rparr>)"
proof (induction n arbitrary: c)
  case 0
  then show ?case by (simp add: promise_destroy_def)
next
  case (Suc n)
  let ?c1 = "c\<lparr>promises := Suc n\<rparr>"
  from Suc.prems have step: "promise_destroy c = ?c1"
    by (simp add: promise_destroy_def)
  have "content ?c1 = unset" "promises ?c1 = Suc n"
    using Suc.prems by simp_all
  then have "destroy_handles (Suc n) ?c1 = resolve (has_error broken_promise) (?c1\<lparr>promises := 0\<rparr>)"
    by (rule Suc.IH)
  with step show ?case by simp
qed

lemma destroy_some_handles:
  "n < promises c \<Longrightarrow> destroy_handles n c = c\<lparr>promises := promises c - n\<rparr>"
proof (induction n arbitrary: c)
  case 0
  then show ?case by simp
next
  case (Suc n)
  then have "promise_destroy c = c\<lparr>promises := promises c - 1\<rparr>"
    by (simp add: promise_destroy_def)
  moreover have "n < promises (c\<lparr>promises := promises c - 1\<rparr>)"
    using Suc.prems by simp
  then have "destroy_handles n (c\<lparr>promises := promises c - 1\<rparr>) =
      c\<lparr>promises := promises c - 1\<rparr>\<lparr>promises := promises (c\<lparr>promises := promises c - 1\<rparr>) - n\<rparr>"
    by (rule Suc.IH)
  ultimately show ?case by simp
qed

lemma observed_by_map:
  "distinct ks \<Longrightarrow> k \<in> set ks \<Longrightarrow> map snd (filter (\<lambda>e. fst e = k) (map (\<lambda>k. (k, r)) ks)) = [r]"
  by (induction ks) (auto simp: filter_empty_conv)

text \<open>A resolved cell never changes its content, and a copy that is destroyed leaves no trace.\<close>

lemma resolve_once: "content c \<noteq> unset \<Longrightarrow> resolve r c = c"
  by (simp add: resolve_def)

lemma set_value_twice: "set_value v2 (set_value v1 c) = set_value v1 c"
  by (simp add: set_value_def resolve_def)

lemma set_error_after_value: "content (set_error e (set_value v c)) = content (set_value v c)"
  by (simp add: set_value_def set_error_def resolve_def)

lemma destroy_copy: "1 \<le> promises c \<Longrightarrow> promise_destroy (promise_copy c) = c"
  by (simp add: promise_destroy_def promise_copy_def)

text \<open>
  C9. Take an unset cell with \<open>N \<ge> 1\<close> live promise handles to which nothing has been
  delivered yet, each waiting consumer attached once. After all \<open>N\<close> handles are
  destroyed the cell is not pending and holds the broken-promise error; every waiting
  consumer has observed exactly that error, once; a consumer that attaches afterwards
  observes it once as well; and while fewer than \<open>N\<close> handles are destroyed the cell is
  still pending and nothing has been delivered.
\<close>

theorem broken_promise_invariant:
  assumes "content c = unset" and "promises c = N" and "1 \<le> N"
    and "distinct (waiting c)" and "observed c = []"
  shows "\<not> pending (destroy_handles N c)
    \<and> content (destroy_handles N c) = has_error broken_promise
    \<and> (\<forall>k\<in>set (waiting c). observed_by k (destroy_handles N c) = [has_error broken_promise])
    \<and> (\<forall>k. k \<notin> set (waiting c) \<longrightarrow>
          observed_by k (destroy_handles N c) = []
        \<and> observed_by k (attach k (destroy_handles N c)) = [has_error broken_promise])
    \<and> (\<forall>n. n < N \<longrightarrow> pending (destroy_handles n c) \<and> observed (destroy_handles n c) = [])"
proof -
  from assms obtain n where N: "N = Suc n"
    by (cases N) simp_all
  let ?c1 = "destroy_handles N c"
  have c1: "?c1 = resolve (has_error broken_promise) (c\<lparr>promises := 0\<rparr>)"
    using assms N by (simp only: destroy_last_handles)
  have obs: "observed ?c1 = map (\<lambda>k. (k, has_error broken_promise)) (waiting c)"
    using assms by (simp add: c1 resolve_def)
  have con: "content ?c1 = has_error broken_promise"
    using assms by (simp add: c1 resolve_def)
  have a: "\<not> pending ?c1"
    by (simp add: pending_def con)
  have b: "\<forall>k\<in>set (waiting c). observed_by k ?c1 = [has_error broken_promise]"
    using assms by (simp add: observed_by_def obs observed_by_map)
  have d: "\<forall>k. k \<notin> set (waiting c) \<longrightarrow>
          observed_by k ?c1 = []
        \<and> observed_by k (attach k ?c1) = [has_error broken_promise]"
    by (auto simp: observed_by_def attach_def obs con filter_empty_conv)
  have e: "\<forall>n. n < N \<longrightarrow> pending (destroy_handles n c) \<and> observed (destroy_handles n c) = []"
    using assms by (simp add: destroy_some_handles pending_def)
  from a con b d e show ?thesis by blast
qed

theorem broken_promise_invariant_witness:
  "content three_promises = unset
   \<and> promises three_promises = 3
   \<and> (1::nat) \<le> 3
   \<and> distinct (waiting three_promises)
   \<and> observed three_promises = []
   \<and> \<not> pending (destroy_handles 3 three_promises)
   \<and> observed_by 4 (destroy_handles 3 three_promises) = [has_error broken_promise]
   \<and> observed_by 5 (destroy_handles 3 three_promises) = [has_error broken_promise]
   \<and> observed_by 6 (attach 6 (destroy_handles 3 three_promises)) = [has_error broken_promise]
   \<and> pending (destroy_handles 2 three_promises)"
proof -
  have u: "content three_promises = unset"
    and p: "promises three_promises = 3"
    and d: "distinct (waiting three_promises)"
    and ob: "observed three_promises = []"
    by (simp_all add: three_promises_def)
  have n: "(1::nat) \<le> 3"
    by simp
  show ?thesis
    using u p n d ob broken_promise_invariant [OF u p n d ob]
    by (simp add: three_promises_def)
qed

end
